theory Spec2Isabelle
  imports Main "HOL-Library.Word" "HOL-Library.Sublist"
begin

section \<open>Data model of \<open>symtab.c\<close>\<close>

text \<open>
  \<open>struct SYMTAB\<close> has the four fields \<open>Next\<close>, \<open>Children\<close>, \<open>Piece\<close> and \<open>Value\<close>.
  A pointer to such a struct is either \<open>NULL\<close> or the address of a node that the pointer's
  holder owns exclusively (the structure is a tree: every node is pointed to by exactly one
  \<open>Next\<close> or \<open>Children\<close> field, or is the root handle). A pointer is therefore modelled by
  the value it leads to: \<open>Null\<close> for \<open>NULL\<close>, \<open>Entry\<close> for a node, fields in the order of
  the struct. \<open>Piece\<close> is a NUL-terminated C string, modelled by the list of its characters
  before the terminator; \<open>Value\<close> is a C \<open>int\<close>, on which the program only copies and
  compares with zero.
\<close>

datatype entry =
    Null
  | Entry (Next: entry) (Children: entry) (Piece: string) (Value: "32 word")

datatype error = AssertionFailed | NullDereference

subsection \<open>Private helpers\<close>

text \<open>\<open>_is_leaf\<close> returns \<open>entry->Value\<close>, used as a truth value.\<close>

definition is_leaf :: "entry \<Rightarrow> bool" where
  "is_leaf entry = (Value entry \<noteq> 0)"

definition get_value :: "entry \<Rightarrow> 32 word" where
  "get_value entry = Value entry"

definition is_last :: "entry \<Rightarrow> bool" where
  "is_last entry = (Next entry = Null)"

definition has_children :: "entry \<Rightarrow> bool" where
  "has_children entry = (Children entry \<noteq> Null)"

definition has_exactly_one_child :: "entry \<Rightarrow> bool" where
  "has_exactly_one_child entry = (has_children entry \<and> is_last (Children entry))"

text \<open>
  \<open>_entry_new\<close> followed by the assignments of \<open>Piece\<close> and \<open>Value\<close>, as in
  \<open>_new_single_leaf\<close>, \<open>_new_last_leaf\<close> and \<open>_entry_split_for_child\<close>: a node with
  \<open>Next = NULL\<close> and \<open>Children = NULL\<close>.
\<close>

definition new_leaf :: "string \<Rightarrow> 32 word \<Rightarrow> entry" where
  "new_leaf label v = Entry Null Null label v"

text \<open>\<open>_new_single_leaf\<close>: \<open>parent->Children = n\<close>.\<close>

definition new_single_leaf :: "entry \<Rightarrow> string \<Rightarrow> 32 word \<Rightarrow> entry" where
  "new_single_leaf parent label v =
     Entry (Next parent) (new_leaf label v) (Piece parent) (Value parent)"

text \<open>\<open>_new_last_leaf\<close>: \<open>prev->Next = n\<close>.\<close>

definition new_last_leaf :: "entry \<Rightarrow> string \<Rightarrow> 32 word \<Rightarrow> entry" where
  "new_last_leaf prev label v =
     Entry (new_leaf label v) (Children prev) (Piece prev) (Value prev)"

text \<open>
  \<open>_entry_split(entry, pos)\<close>: \<open>pos\<close> points into \<open>entry->Piece\<close>; it is given here by the
  string \<open>pos\<close> that starts there, a suffix of the label. The new node \<open>second\<close> takes the
  value, a copy of the tail and the children; the entry keeps the characters before
  \<open>pos\<close> and gets \<open>second\<close> as its only child.
\<close>

definition entry_split :: "entry \<Rightarrow> string \<Rightarrow> entry" where
  "entry_split entry pos =
     (let second = Entry Null (Children entry) pos (Value entry)
      in Entry (Next entry) second
           (take (length (Piece entry) - length pos) (Piece entry)) (Value entry))"

text \<open>\<open>_entry_split_for_child\<close>: split, clear the value, hang the new leaf behind \<open>second\<close>.\<close>

definition entry_split_for_child :: "entry \<Rightarrow> string \<Rightarrow> string \<Rightarrow> 32 word \<Rightarrow> entry" where
  "entry_split_for_child entry pos label v =
     (let e = entry_split entry pos;
          second = Children e;
          n = new_leaf label v
      in Entry (Next e)
           (Entry n (Children second) (Piece second) (Value second))
           (Piece e) 0)"

definition entry_split_for_prefix :: "entry \<Rightarrow> string \<Rightarrow> 32 word \<Rightarrow> entry" where
  "entry_split_for_prefix entry pos v =
     (let e = entry_split entry pos
      in Entry (Next e) (Children e) (Piece e) v)"

text \<open>
  \<open>_entry_merge(parent, child)\<close>: the parent takes the child's value and children and the
  concatenation of the two labels; its \<open>Next\<close> is kept. The child is freed.
\<close>

definition entry_merge :: "entry \<Rightarrow> entry \<Rightarrow> entry" where
  "entry_merge parent child =
     Entry (Next parent) (Children child) (Piece parent @ Piece child) (Value child)"

text \<open>
  The inner loop of all four traversals,
  \<^verbatim>\<open>while(*edge && *search && *edge == *search) { ++edge; ++search; }\<close>,
  returns the two pointers where it stops, here the two remaining strings.
\<close>

fun match_loop :: "string \<Rightarrow> string \<Rightarrow> string \<times> string" where
  "match_loop (e # edge) (s # search) =
     (if e = s then match_loop edge search else (e # edge, s # search))"
| "match_loop edge search = (edge, search)"

subsection \<open>Public operations\<close>

text \<open>\<open>symtab_create\<close>: the capacity is ignored; the root has the label \<open>""\<close> and value 42.\<close>

definition symtab_create :: "int \<Rightarrow> entry" where
  "symtab_create capacity = Entry Null Null [] 42"

text \<open>
  The outer loop of \<open>symtab_put\<close>. The loop walks down the tree and changes one node where
  it stops; the model returns the value of \<open>val\<close> and the tree rebuilt around the changed
  node. The test \<open>edge == entry->Piece\<close> (no character matched) is \<open>edge = piece\<close>, since
  \<open>edge\<close> is a suffix of the label.
\<close>

fun put_loop :: "entry \<Rightarrow> string \<Rightarrow> 32 word \<Rightarrow> 32 word \<times> entry" where
  "put_loop Null ident v = (0, Null)"
| "put_loop (Entry nxt ch piece val) ident v =
     (case match_loop piece ident of (edge, search) \<Rightarrow>
        if edge = [] then
          if search = [] then (get_value (Entry nxt ch piece val), Entry nxt ch piece v)
          else if \<not> has_children (Entry nxt ch piece val)
            then (0, new_single_leaf (Entry nxt ch piece val) search v)
          else (case put_loop ch search v of (r, ch') \<Rightarrow> (r, Entry nxt ch' piece val))
        else if edge = piece then
          if is_last (Entry nxt ch piece val)
            then (0, new_last_leaf (Entry nxt ch piece val) search v)
          else (case put_loop nxt ident v of (r, nxt') \<Rightarrow> (r, Entry nxt' ch piece val))
        else
          if search \<noteq> []
            then (0, entry_split_for_child (Entry nxt ch piece val) edge search v)
          else (0, entry_split_for_prefix (Entry nxt ch piece val) edge v))"

text \<open>\<open>symtab_put\<close>: the assertion \<open>value != 0\<close> comes before the loop.\<close>

definition symtab_put :: "entry \<Rightarrow> string \<Rightarrow> 32 word \<Rightarrow> error + 32 word \<times> entry" where
  "symtab_put tab ident v =
     (if v = 0 then Inl AssertionFailed else Inr (put_loop tab ident v))"

text \<open>\<open>symtab_get\<close>.\<close>

fun symtab_get :: "entry \<Rightarrow> string \<Rightarrow> 32 word" where
  "symtab_get Null ident = 0"
| "symtab_get (Entry nxt ch piece val) ident =
     (case match_loop piece ident of (edge, search) \<Rightarrow>
        if edge = [] then
          if search = [] \<and> is_leaf (Entry nxt ch piece val)
            then get_value (Entry nxt ch piece val)
          else symtab_get ch search
        else symtab_get nxt ident)"

text \<open>
  \<open>_entry_remove(entry, parent, prev)\<close> does two things. First it changes the link that
  leads to \<open>entry\<close> (\<open>prev->Next\<close> if there is a previous sibling, \<open>parent->Children\<close>
  otherwise): an entry with children stays, without its value and merged with an only
  child; an entry without children is replaced by its \<open>Next\<close>. \<open>entry_unlink\<close> gives the new
  target of that link. Then it looks at the parent, whose children now are the changed
  chain: \<open>parent_merge\<close>.
\<close>

definition entry_unlink :: "entry \<Rightarrow> entry" where
  "entry_unlink entry =
     (if has_children entry then
        (let e = Entry (Next entry) (Children entry) (Piece entry) 0
         in if is_last (Children e) then entry_merge e (Children e) else e)
      else Next entry)"

definition parent_merge :: "entry \<Rightarrow> entry" where
  "parent_merge parent =
     (if \<not> is_leaf parent \<and> has_exactly_one_child parent
        then entry_merge parent (Children parent) else parent)"

text \<open>
  The loop of \<open>symtab_remove\<close>. \<open>parent\<close> is the loop's variable of that name: \<open>None\<close> for
  \<open>NULL\<close>, and the node the loop descended from otherwise. \<open>_entry_remove\<close> dereferences
  it in every path, so a call with \<open>parent == NULL\<close> is the error \<open>NullDereference\<close>. The
  result is the value of \<open>val\<close>, a flag saying that \<open>_entry_remove\<close> ran on a node of this
  sibling chain (so that the node owning the chain is its \<open>parent\<close> and gets
  \<open>parent_merge\<close>), and the rebuilt chain.
\<close>

fun remove_loop :: "entry \<Rightarrow> entry option \<Rightarrow> string \<Rightarrow> error + 32 word \<times> bool \<times> entry" where
  "remove_loop Null parent ident = Inr (0, False, Null)"
| "remove_loop (Entry nxt ch piece val) parent ident =
     (case match_loop piece ident of (edge, search) \<Rightarrow>
        if edge = [] then
          if search = [] \<and> is_leaf (Entry nxt ch piece val) then
            (case parent of
               None \<Rightarrow> Inl NullDereference
             | Some p \<Rightarrow>
                 Inr (get_value (Entry nxt ch piece val), True,
                      entry_unlink (Entry nxt ch piece val)))
          else
            (case remove_loop ch (Some (Entry nxt ch piece val)) search of
               Inl e \<Rightarrow> Inl e
             | Inr (r, removed, ch') \<Rightarrow>
                 Inr (r, False,
                      if removed then parent_merge (Entry nxt ch' piece val)
                      else Entry nxt ch' piece val))
        else
          (case remove_loop nxt parent ident of
             Inl e \<Rightarrow> Inl e
           | Inr (r, removed, nxt') \<Rightarrow> Inr (r, removed, Entry nxt' ch piece val)))"

definition symtab_remove :: "entry \<Rightarrow> string \<Rightarrow> error + 32 word \<times> entry" where
  "symtab_remove tab ident =
     (case remove_loop tab None ident of
        Inl e \<Rightarrow> Inl e
      | Inr (r, removed, tab') \<Rightarrow> Inr (r, tab'))"

text \<open>
  \<open>symtab_complete\<close>. The buffer is the string \<open>pre @ ident\<close>: \<open>pre\<close> holds the
  characters before the pointer \<open>ident\<close>, which the loop has moved past. The result is
  \<open>modified\<close> and the buffer. The buffer's capacity is the caller's business and has no
  bound here.
\<close>

fun complete_loop :: "entry \<Rightarrow> string \<Rightarrow> string \<Rightarrow> 32 word \<times> string" where
  "complete_loop Null pre ident = (0, pre @ ident)"
| "complete_loop (Entry nxt ch piece val) pre ident =
     (case match_loop piece ident of (edge, search) \<Rightarrow>
        if edge = [] then
          if search = [] then (0, pre @ ident)
          else complete_loop ch (pre @ take (length ident - length search) ident) search
        else if edge = piece then complete_loop nxt pre ident
        else (1, pre @ take (length ident - length search) ident @ edge))"

definition symtab_complete :: "entry \<Rightarrow> string \<Rightarrow> 32 word \<times> string" where
  "symtab_complete tab ident = complete_loop tab [] ident"

section \<open>Sequences of operations\<close>

text \<open>
  A caller's sequence of calls on one table. \<open>symtab_get\<close> and \<open>symtab_complete\<close> take a
  pointer to \<open>const\<close> and leave the table as it is. A failed assertion or a dereference of
  \<open>NULL\<close> ends the run. \<open>valid_op\<close> holds of the calls that meet the preconditions of
  the interface: a key that is not empty, for put and for remove, and a value that is not
  zero. \<open>valid_put\<close> asks that of the puts only and lets a removal take any key. A table
  is reached from a new one when \<open>run\<close> returns it for a sequence of calls whose puts are
  valid; \<open>put_keys\<close> lists the keys that the puts of a sequence insert.
\<close>

datatype op = Put string "32 word" | Remove string | Get string | Complete string

fun apply_op :: "op \<Rightarrow> entry \<Rightarrow> error + entry" where
  "apply_op (Put k v) t = (case symtab_put t k v of Inl e \<Rightarrow> Inl e | Inr (r, t') \<Rightarrow> Inr t')"
| "apply_op (Remove k) t = (case symtab_remove t k of Inl e \<Rightarrow> Inl e | Inr (r, t') \<Rightarrow> Inr t')"
| "apply_op (Get k) t = Inr t"
| "apply_op (Complete b) t = Inr t"

fun run :: "op list \<Rightarrow> entry \<Rightarrow> error + entry" where
  "run [] t = Inr t"
| "run (x # xs) t = (case apply_op x t of Inl e \<Rightarrow> Inl e | Inr t' \<Rightarrow> run xs t')"

fun valid_op :: "op \<Rightarrow> bool" where
  "valid_op (Put k v) = (k \<noteq> [] \<and> v \<noteq> 0)"
| "valid_op (Remove k) = (k \<noteq> [])"
| "valid_op (Get k) = True"
| "valid_op (Complete b) = True"

fun valid_put :: "op \<Rightarrow> bool" where
  "valid_put (Put k v) = (k \<noteq> [] \<and> v \<noteq> 0)"
| "valid_put (Remove k) = True"
| "valid_put (Get k) = True"
| "valid_put (Complete b) = True"

fun put_keys :: "op list \<Rightarrow> string list" where
  "put_keys [] = []"
| "put_keys (Put k v # xs) = k # put_keys xs"
| "put_keys (x # xs) = put_keys xs"

section \<open>The removal loop without the parent pointer\<close>

text \<open>
  The same loop as \<open>remove_loop\<close>, without the variable \<open>parent\<close> and therefore without
  the error: what \<open>remove_loop\<close> computes whenever it does not stop at a \<open>NULL\<close> parent
  (lemma \<open>remove_loop_core\<close> below). The properties of removal are proved on this form.
\<close>

fun remove_core :: "entry \<Rightarrow> string \<Rightarrow> 32 word \<times> bool \<times> entry" where
  "remove_core Null ident = (0, False, Null)"
| "remove_core (Entry nxt ch piece val) ident =
     (case match_loop piece ident of (edge, search) \<Rightarrow>
        if edge = [] then
          if search = [] \<and> val \<noteq> 0 then (val, True, entry_unlink (Entry nxt ch piece val))
          else
            (case remove_core ch search of (r, removed, ch') \<Rightarrow>
               (r, False,
                if removed then parent_merge (Entry nxt ch' piece val)
                else Entry nxt ch' piece val))
        else
          (case remove_core nxt ident of (r, removed, nxt') \<Rightarrow>
             (r, removed, Entry nxt' ch piece val)))"

section \<open>Properties of a table\<close>

text \<open>
  The first character of a label is \<open>*Piece\<close>; for the empty string that is the
  terminator. \<open>firsts\<close> lists the first characters of the labels along a chain of siblings.
\<close>

definition first_char :: "string \<Rightarrow> char" where
  "first_char s = (case s of [] \<Rightarrow> CHR 0x00 | c # _ \<Rightarrow> c)"

fun firsts :: "entry \<Rightarrow> char list" where
  "firsts Null = []"
| "firsts (Entry nxt ch piece val) = first_char piece # firsts nxt"

text \<open>
  No node whose value is absent (\<open>_is_leaf\<close> is false) has exactly one child
  (\<open>_has_exactly_one_child\<close>), anywhere in the tree.
\<close>

fun compact :: "entry \<Rightarrow> bool" where
  "compact Null = True"
| "compact (Entry nxt ch piece val) =
     ((\<not> is_leaf (Entry nxt ch piece val) \<longrightarrow> \<not> has_exactly_one_child (Entry nxt ch piece val))
      \<and> compact ch \<and> compact nxt)"

text \<open>In every chain of siblings, the first characters of the labels are pairwise distinct.\<close>

fun siblings_distinct :: "entry \<Rightarrow> bool" where
  "siblings_distinct Null = True"
| "siblings_distinct (Entry nxt ch piece val) =
     (distinct (firsts (Entry nxt ch piece val)) \<and> siblings_distinct ch \<and> siblings_distinct nxt)"

text \<open>
  The keys a tree stores: for every node with a value, the concatenation of the labels on the
  way to it.
\<close>

fun keys :: "entry \<Rightarrow> string list" where
  "keys Null = []"
| "keys (Entry nxt ch piece val) =
     (if val \<noteq> 0 then [piece] else []) @ map (\<lambda>k. piece @ k) (keys ch) @ keys nxt"

text \<open>
  The node that stands for a key: the one where the loop of \<open>symtab_put\<close> reaches its
  first case (label matched to its end, key used up), \<open>Null\<close> if the loop ends elsewhere.
\<close>

fun find_node :: "entry \<Rightarrow> string \<Rightarrow> entry" where
  "find_node Null ident = Null"
| "find_node (Entry nxt ch piece val) ident =
     (case match_loop piece ident of (edge, search) \<Rightarrow>
        if edge = [] then
          if search = [] then Entry nxt ch piece val else find_node ch search
        else if edge = piece then find_node nxt ident
        else Null)"

text \<open>
  The invariant behind the claims. In a chain below the root, every label is non-empty, the
  first characters are distinct, and a node without a value has at least two children. The
  root has the empty label, no sibling and a value.
\<close>

fun wf_chain :: "entry \<Rightarrow> bool" where
  "wf_chain Null = True"
| "wf_chain (Entry nxt ch piece val) =
     (piece \<noteq> [] \<and> first_char piece \<notin> set (firsts nxt) \<and>
      (val = 0 \<longrightarrow> 2 \<le> length (firsts ch)) \<and> wf_chain ch \<and> wf_chain nxt)"

definition wf_root :: "entry \<Rightarrow> bool" where
  "wf_root t = (t \<noteq> Null \<and> Next t = Null \<and> Piece t = [] \<and> Value t \<noteq> 0 \<and> wf_chain (Children t))"

section \<open>The matching loop\<close>

text \<open>
  Where the loop stops, the label and the key have lost the same prefix, and the next
  characters differ unless one of the two strings has ended.
\<close>

lemma match_loop_decomp:
  "match_loop piece k = (edge, search) \<Longrightarrow>
     \<exists>p. piece = p @ edge \<and> k = p @ search \<and> (edge = [] \<or> search = [] \<or> hd edge \<noteq> hd search)"
proof (induction piece k rule: match_loop.induct)
  case (1 a as b bs)
  show ?case
  proof (cases "a = b")
    case True
    with 1 obtain p where "as = p @ edge" "bs = p @ search"
       "edge = [] \<or> search = [] \<or> hd edge \<noteq> hd search"
      by auto
    with True have "a # as = (a # p) @ edge \<and> b # bs = (a # p) @ search" by simp
    then show ?thesis using \<open>edge = [] \<or> search = [] \<or> hd edge \<noteq> hd search\<close> by blast
  next
    case False
    with 1 show ?thesis by auto
  qed
qed auto

lemma match_loop_append:
  "edge = [] \<or> search = [] \<or> hd edge \<noteq> hd search \<Longrightarrow>
   match_loop (p @ edge) (p @ search) = (edge, search)"
proof (induction p)
  case Nil
  then show ?case by (cases edge; cases search) auto
qed simp

lemma match_loop_self [simp]: "match_loop k k = ([], [])"
  using match_loop_append [of "[]" "[]" k] by simp

lemma match_loop_prefix:
  "match_loop piece k = (edge, search) \<Longrightarrow> (edge = [] \<longleftrightarrow> prefix piece k)"
  by (induction piece k rule: match_loop.induct) (auto split: if_splits)

lemma match_loop_drop:
  "match_loop piece k = ([], search) \<Longrightarrow> search = drop (length piece) k"
  by (induction piece k rule: match_loop.induct) (auto split: if_splits)

lemma first_char_Cons [simp]: "first_char (c # cs) = c"
  by (simp add: first_char_def)

lemma first_char_append [simp]: "p \<noteq> [] \<Longrightarrow> first_char (p @ q) = first_char p"
  by (cases p) auto

lemma first_char_hd: "s \<noteq> [] \<Longrightarrow> first_char s = hd s"
  by (cases s) auto

lemma match_loop_none:
  "match_loop piece k = (piece, search) \<Longrightarrow> piece \<noteq> [] \<Longrightarrow> k \<noteq> [] \<Longrightarrow>
   search = k \<and> first_char piece \<noteq> first_char k"
  by (cases piece; cases k) (auto split: if_splits dest: match_loop_decomp)

lemma match_loop_some:
  "match_loop piece k = (edge, search) \<Longrightarrow> edge \<noteq> piece \<Longrightarrow>
   piece \<noteq> [] \<and> k \<noteq> [] \<and> first_char piece = first_char k"
  by (cases piece; cases k) (auto split: if_splits)

section \<open>Lookup\<close>

text \<open>One step of \<open>symtab_get\<close>, in terms of the prefix order on strings.\<close>

lemma symtab_get_Entry:
  "symtab_get (Entry nxt ch piece val) k =
     (if prefix piece k then
        (if k = piece \<and> val \<noteq> 0 then val else symtab_get ch (drop (length piece) k))
      else symtab_get nxt k)"
proof (cases "match_loop piece k")
  case (Pair edge search)
  show ?thesis
  proof (cases "edge = []")
    case True
    with Pair have pre: "prefix piece k" and s: "search = drop (length piece) k"
      using match_loop_prefix match_loop_drop by blast+
    then have "search = [] \<longleftrightarrow> k = piece"
      by (auto simp: prefix_def)
    with Pair True pre s show ?thesis
      by (simp add: is_leaf_def get_value_def)
  next
    case False
    with Pair have "\<not> prefix piece k" using match_loop_prefix by blast
    with Pair False show ?thesis by simp
  qed
qed

lemma get_leaf:
  "symtab_get (Entry Null Null label v) k = (if k = label \<and> v \<noteq> 0 then v else 0)"
  by (auto simp: symtab_get_Entry simp del: symtab_get.simps(2))

text \<open>
  A key that starts with none of the first characters of a chain is not found in it; nor is
  the empty key.
\<close>

lemma get_miss:
  "wf_chain c \<Longrightarrow> k = [] \<or> first_char k \<notin> set (firsts c) \<Longrightarrow> symtab_get c k = 0"
proof (induction c)
  case Null
  then show ?case by simp
next
  case (Entry nxt ch piece val)
  then have "\<not> prefix piece k"
    by (cases piece; cases k) auto
  with Entry show ?case
    by (auto simp: symtab_get_Entry simp del: symtab_get.simps(2))
qed

text \<open>A lookup that returns a value has followed the labels of a stored key.\<close>

lemma get_in_keys: "symtab_get c k \<noteq> 0 \<Longrightarrow> k \<in> set (keys c)"
proof (induction c arbitrary: k)
  case Null
  then show ?case by simp
next
  case (Entry nxt ch piece val)
  show ?case
  proof (cases "prefix piece k")
    case True
    then obtain s where k: "k = piece @ s" by (auto simp: prefix_def)
    show ?thesis
    proof (cases "s = [] \<and> val \<noteq> 0")
      case True
      then show ?thesis using k by simp
    next
      case False
      with Entry.prems k have "symtab_get ch s \<noteq> 0"
        by (auto simp: symtab_get_Entry simp del: symtab_get.simps(2))
      then have "s \<in> set (keys ch)" by (rule Entry.IH(2))
      then show ?thesis using k by auto
    qed
  next
    case False
    with Entry.prems have "symtab_get nxt k \<noteq> 0"
      by (auto simp: symtab_get_Entry simp del: symtab_get.simps(2))
    then have "k \<in> set (keys nxt)" by (rule Entry.IH(1))
    then show ?thesis by simp
  qed
qed

section \<open>Insertion keeps the invariant and behaves like a map update\<close>

lemmas put_defs = has_children_def is_last_def is_leaf_def get_value_def new_single_leaf_def
    new_last_leaf_def new_leaf_def entry_split_for_child_def entry_split_for_prefix_def
    entry_split_def

lemma put_firsts:
  "c \<noteq> Null \<Longrightarrow> wf_chain c \<Longrightarrow> k \<noteq> [] \<Longrightarrow>
   firsts (snd (put_loop c k v)) =
     (if first_char k \<in> set (firsts c) then firsts c else firsts c @ [first_char k])"
proof (induction c k v rule: put_loop.induct)
  case (1 ident v)
  then show ?case by simp
next
  case (2 nxt ch piece val ident v)
  obtain edge search where m: "match_loop piece ident = (edge, search)"
    by (cases "match_loop piece ident")
  then obtain p where p: "piece = p @ edge" "ident = p @ search"
    "edge = [] \<or> search = [] \<or> hd edge \<noteq> hd search"
    using match_loop_decomp by blast
  from 2(4) have ne: "piece \<noteq> []" by simp
  show ?case
  proof (cases "edge = piece")
    case True
    with m ne 2(5) have s: "search = ident" and f: "first_char piece \<noteq> first_char ident"
      using match_loop_none by blast+
    show ?thesis
    proof (cases "nxt = Null")
      case True
      then show ?thesis using m \<open>edge = piece\<close> ne f s
        by (simp add: put_defs)
    next
      case False
      then show ?thesis using m \<open>edge = piece\<close> ne f s 2(2) [OF m [symmetric]] 2(4,5)
        by (auto simp: put_defs split: prod.splits)
    qed
  next
    case False
    with m have f: "first_char piece = first_char ident"
      using match_loop_some by blast
    from False p have "p \<noteq> []" by auto
    then have "first_char p = first_char ident" using p(2) by simp
    then show ?thesis using m False f p(1) \<open>p \<noteq> []\<close>
      by (auto simp: put_defs split: prod.splits)
  qed
qed

lemma put_wf:
  "c \<noteq> Null \<Longrightarrow> wf_chain c \<Longrightarrow> k \<noteq> [] \<Longrightarrow> v \<noteq> 0 \<Longrightarrow> wf_chain (snd (put_loop c k v))"
proof (induction c k v rule: put_loop.induct)
  case (1 ident v)
  then show ?case by simp
next
  case (2 nxt ch piece val ident v)
  obtain edge search where m: "match_loop piece ident = (edge, search)"
    by (cases "match_loop piece ident")
  then obtain p where p: "piece = p @ edge" "ident = p @ search"
    "edge = [] \<or> search = [] \<or> hd edge \<noteq> hd search"
    using match_loop_decomp by blast
  from 2(4) have ne: "piece \<noteq> []" by simp
  show ?case
  proof (cases "edge = piece")
    case True
    with m ne 2(5) have s: "search = ident" and f: "first_char piece \<noteq> first_char ident"
      using match_loop_none by blast+
    show ?thesis
    proof (cases "nxt = Null")
      case True
      then show ?thesis using m \<open>edge = piece\<close> ne f s 2(4,5,6)
        by (simp add: put_defs)
    next
      case False
      have "wf_chain (snd (put_loop nxt ident v))"
        using 2(2) [OF m [symmetric]] \<open>edge = piece\<close> ne False 2(4,5,6) by (simp add: put_defs)
      moreover have "first_char piece \<notin> set (firsts (snd (put_loop nxt ident v)))"
        using put_firsts [of nxt ident v] False 2(4,5) f by auto
      ultimately show ?thesis using m \<open>edge = piece\<close> ne False 2(4)
        by (auto simp: put_defs split: prod.splits)
    qed
  next
    case np: False
    show ?thesis
    proof (cases "edge = []")
      case True
      show ?thesis
      proof (cases "search = [] \<or> ch = Null")
        case True
        then show ?thesis using m \<open>edge = []\<close> 2(4,6)
          by (auto simp: put_defs)
      next
        case False
        then have "wf_chain (snd (put_loop ch search v))"
          using 2(1) [OF m [symmetric] \<open>edge = []\<close>] 2(4,6) by (simp add: put_defs)
        moreover have "length (firsts ch) \<le> length (firsts (snd (put_loop ch search v)))"
          using put_firsts [of ch search v] False 2(4) by auto
        ultimately show ?thesis using m \<open>edge = []\<close> False 2(4)
          by (auto simp: put_defs split: prod.splits)
      qed
    next
      case False
      with np p have pn: "p \<noteq> []" by auto
      have "search \<noteq> [] \<Longrightarrow> first_char edge \<noteq> first_char search"
        using p(3) False by (simp add: first_char_hd)
      then show ?thesis using m False np p(1) pn 2(4,6)
        by (auto simp: put_defs)
    qed
  qed
qed

lemma get_put:
  "c \<noteq> Null \<Longrightarrow> wf_chain c \<Longrightarrow> k \<noteq> [] \<Longrightarrow> v \<noteq> 0 \<Longrightarrow>
   symtab_get (snd (put_loop c k v)) k' = (if k' = k then v else symtab_get c k')"
proof (induction c k v arbitrary: k' rule: put_loop.induct)
  case (1 ident v)
  then show ?case by simp
next
  case (2 nxt ch piece val ident v)
  obtain edge search where m: "match_loop piece ident = (edge, search)"
    by (cases "match_loop piece ident")
  then obtain p where p: "piece = p @ edge" "ident = p @ search"
    "edge = [] \<or> search = [] \<or> hd edge \<noteq> hd search"
    using match_loop_decomp by blast
  from 2(4) have ne: "piece \<noteq> []" by simp
  note gs = symtab_get_Entry get_leaf
  show ?case
  proof (cases "edge = piece")
    case True
    with m ne 2(5) have s: "search = ident" and f: "first_char piece \<noteq> first_char ident"
      using match_loop_none by blast+
    from m True ne have np: "\<not> prefix piece ident"
      using match_loop_prefix by blast
    show ?thesis
    proof (cases "nxt = Null")
      case True
      then show ?thesis using m \<open>edge = piece\<close> ne s 2(6) np
        by (auto simp: put_defs gs simp del: symtab_get.simps(2))
    next
      case False
      have "symtab_get (snd (put_loop nxt ident v)) k' =
          (if k' = ident then v else symtab_get nxt k')"
        using 2(2) [OF m [symmetric]] \<open>edge = piece\<close> ne False 2(4,5,6) by (simp add: put_defs)
      then show ?thesis using m \<open>edge = piece\<close> ne False np
        by (auto simp: put_defs gs simp del: symtab_get.simps(2) split: prod.splits)
    qed
  next
    case nm: False
    show ?thesis
    proof (cases "edge = []")
      case True
      with p have id: "ident = piece @ search" by simp
      show ?thesis
      proof (cases "search = [] \<or> ch = Null")
        case True
        then show ?thesis using m \<open>edge = []\<close> 2(4,6) id
          by (auto simp: put_defs gs prefix_def simp del: symtab_get.simps(2))
      next
        case False
        then have "\<And>s'. symtab_get (snd (put_loop ch search v)) s' =
            (if s' = search then v else symtab_get ch s')"
          using 2(1) [OF m [symmetric] \<open>edge = []\<close>] 2(4,6) by (simp add: put_defs)
        then show ?thesis using m \<open>edge = []\<close> False id
          by (auto simp: put_defs gs prefix_def simp del: symtab_get.simps(2) split: prod.splits if_splits)
      qed
    next
      case False
      with nm p have pn: "p \<noteq> []" by auto
      have fe: "search \<noteq> [] \<Longrightarrow> \<not> prefix edge search"
        using p(3) False by (cases edge; cases search) auto
      have miss: "prefix p k' \<Longrightarrow> symtab_get nxt k' = 0"
      proof -
        assume "prefix p k'"
        then have "first_char k' = first_char piece"
          using pn p(1) by (auto simp: prefix_def)
        then show ?thesis using get_miss [of nxt k'] 2(4) by simp
      qed
      show ?thesis
      proof (cases "prefix p k'")
        case True
        then obtain s' where k': "k' = p @ s'" by (auto simp: prefix_def)
        show ?thesis using m False nm p(1,2) pn 2(6) fe miss [OF True] k'
          by (auto simp: put_defs gs simp del: symtab_get.simps(2))
      next
        case False
        then have "\<not> prefix (p @ edge) k'" "k' \<noteq> p @ search"
          by (auto simp: prefix_def)
        then show ?thesis using m \<open>edge \<noteq> []\<close> nm p(1,2) pn False
          by (auto simp: put_defs gs simp del: symtab_get.simps(2))
      qed
    qed
  qed
qed

section \<open>Merging a node with its only child\<close>

lemma entry_unlink_eq:
  "entry_unlink (Entry nxt ch piece val) =
     (if ch = Null then nxt else parent_merge (Entry nxt ch piece 0))"
  by (simp add: entry_unlink_def parent_merge_def has_children_def is_leaf_def
      has_exactly_one_child_def Let_def)

lemma firsts_Nil [simp]: "firsts c = [] \<longleftrightarrow> c = Null"
  by (cases c) auto

lemma parent_merge_cases:
  "parent_merge (Entry nxt ch piece val) =
     (if val = 0 \<and> length (firsts ch) = 1
      then Entry nxt (Children ch) (piece @ Piece ch) (Value ch)
      else Entry nxt ch piece val)"
  by (cases ch)
    (auto simp: parent_merge_def is_leaf_def has_exactly_one_child_def has_children_def
      is_last_def entry_merge_def)

lemma parent_merge_firsts:
  "piece \<noteq> [] \<Longrightarrow> firsts (parent_merge (Entry nxt ch piece val)) = first_char piece # firsts nxt"
  by (simp add: parent_merge_cases)

lemma parent_merge_wf:
  "piece \<noteq> [] \<Longrightarrow> first_char piece \<notin> set (firsts nxt) \<Longrightarrow> wf_chain nxt \<Longrightarrow> wf_chain ch \<Longrightarrow>
   (val = 0 \<longrightarrow> 1 \<le> length (firsts ch)) \<Longrightarrow>
   wf_chain (parent_merge (Entry nxt ch piece val))"
  by (cases ch) (auto simp: parent_merge_cases Suc_le_eq)

lemma parent_merge_get:
  "piece \<noteq> [] \<Longrightarrow> first_char piece \<notin> set (firsts nxt) \<Longrightarrow> wf_chain nxt \<Longrightarrow> wf_chain ch \<Longrightarrow>
   symtab_get (parent_merge (Entry nxt ch piece val)) k = symtab_get (Entry nxt ch piece val) k"
proof (cases "val = 0 \<and> length (firsts ch) = 1")
  case True
  then obtain ch2 q val2 where ch: "ch = Entry Null ch2 q val2"
    by (cases ch) auto
  assume a: "piece \<noteq> []" "first_char piece \<notin> set (firsts nxt)" "wf_chain nxt" "wf_chain ch"
  show ?thesis
  proof (cases "prefix piece k")
    case p: True
    then obtain s where k: "k = piece @ s" by (auto simp: prefix_def)
    then have "first_char k = first_char piece" using a(1) by simp
    then have "symtab_get nxt k = 0" using get_miss [of nxt k] a by simp
    then show ?thesis using True ch k a
      by (auto simp: parent_merge_cases symtab_get_Entry simp del: symtab_get.simps(2))
  next
    case False
    then have "\<not> prefix (piece @ q) k" by (auto simp: prefix_def)
    with False show ?thesis using True ch
      by (auto simp: parent_merge_cases symtab_get_Entry simp del: symtab_get.simps(2))
  qed
next
  case False
  then show ?thesis by (auto simp: parent_merge_cases)
qed

section \<open>Removal keeps the invariant and behaves like a map update\<close>

lemma remove_loop_core:
  "remove_loop c par k =
     (case remove_core c k of (r, removed, c') \<Rightarrow>
        if removed \<and> par = None then Inl NullDereference else Inr (r, removed, c'))"
  by (induction c par k rule: remove_loop.induct)
    (auto simp: is_leaf_def get_value_def split: prod.splits option.splits)

lemma remove_core_get:
  "fst (remove_core c k) = symtab_get c k"
  by (induction c k rule: remove_core.induct)
    (auto simp: is_leaf_def get_value_def split: prod.splits)

lemma remove_core_absent:
  "symtab_get c k = 0 \<Longrightarrow> remove_core c k = (0, False, c)"
  by (induction c k rule: remove_core.induct)
    (auto simp: is_leaf_def get_value_def split: prod.splits if_splits)

lemma symtab_remove_absent:
  "symtab_get t k = 0 \<Longrightarrow> symtab_remove t k = Inr (0, t)"
  by (simp add: symtab_remove_def remove_loop_core remove_core_absent)

lemma remove_firsts:
  "wf_chain c \<Longrightarrow> remove_core c k = (r, b, c') \<Longrightarrow>
   set (firsts c') \<subseteq> set (firsts c) \<and> length (firsts c) \<le> Suc (length (firsts c')) \<and>
   (\<not> b \<longrightarrow> firsts c' = firsts c)"
proof (induction c k arbitrary: r b c' rule: remove_core.induct)
  case (1 ident)
  then show ?case by auto
next
  case (2 nxt ch piece val ident)
  obtain edge search where m: "match_loop piece ident = (edge, search)"
    by (cases "match_loop piece ident")
  from 2(3) have ne: "piece \<noteq> []" by simp
  show ?case
  proof (cases "edge = []")
    case True
    show ?thesis
    proof (cases "search = [] \<and> val \<noteq> 0")
      case True
      then show ?thesis using m \<open>edge = []\<close> 2(4) ne
        by (auto simp: entry_unlink_eq parent_merge_firsts split: if_splits)
    next
      case False
      then show ?thesis using m \<open>edge = []\<close> 2(4) ne
        by (auto simp: parent_merge_firsts split: prod.splits if_splits)
    qed
  next
    case False
    obtain r1 b1 n1 where r: "remove_core nxt ident = (r1, b1, n1)"
      by (cases "remove_core nxt ident")
    from 2(2) [OF m [symmetric] False _ r] 2(3)
    have "set (firsts n1) \<subseteq> set (firsts nxt) \<and> length (firsts nxt) \<le> Suc (length (firsts n1)) \<and>
      (\<not> b1 \<longrightarrow> firsts n1 = firsts nxt)" by simp
    then show ?thesis using m False r 2(4) by auto
  qed
qed

lemma remove_wf:
  "wf_chain c \<Longrightarrow> wf_chain (snd (snd (remove_core c k)))"
proof (induction c k rule: remove_core.induct)
  case (1 ident)
  then show ?case by auto
next
  case (2 nxt ch piece val ident)
  obtain edge search where m: "match_loop piece ident = (edge, search)"
    by (cases "match_loop piece ident")
  from 2(3) have ne: "piece \<noteq> []" by simp
  show ?case
  proof (cases "edge = []")
    case True
    show ?thesis
    proof (cases "search = [] \<and> val \<noteq> 0")
      case True
      then show ?thesis using m \<open>edge = []\<close> 2(3) parent_merge_wf [of piece nxt ch 0]
        by (auto simp: entry_unlink_eq Suc_le_eq)
    next
      case False
      obtain r1 b1 c1 where r: "remove_core ch search = (r1, b1, c1)"
        by (cases "remove_core ch search")
      from 2(1) [OF m [symmetric] True False] 2(3) r have wf1: "wf_chain c1" by simp
      from remove_firsts [OF _ r] 2(3)
      have f: "length (firsts ch) \<le> Suc (length (firsts c1))" "\<not> b1 \<longrightarrow> firsts c1 = firsts ch"
        by auto
      show ?thesis
      proof (cases b1)
        case True
        have "wf_chain (parent_merge (Entry nxt c1 piece val))"
          using parent_merge_wf [of piece nxt c1 val] 2(3) wf1 f(1) by auto
        then show ?thesis using m \<open>edge = []\<close> False r True by auto
      next
        case b: False
        then show ?thesis using m \<open>edge = []\<close> False r wf1 f(2) 2(3) by auto
      qed
    qed
  next
    case False
    obtain r1 b1 n1 where r: "remove_core nxt ident = (r1, b1, n1)"
      by (cases "remove_core nxt ident")
    from 2(2) [OF m [symmetric] False] 2(3) r have wf1: "wf_chain n1" by simp
    from remove_firsts [OF _ r] 2(3) have "set (firsts n1) \<subseteq> set (firsts nxt)" by auto
    then show ?thesis using m False r wf1 2(3) by auto
  qed
qed

lemma get_remove:
  "wf_chain c \<Longrightarrow>
   symtab_get (snd (snd (remove_core c k))) k' = (if k' = k then 0 else symtab_get c k')"
proof (induction c k arbitrary: k' rule: remove_core.induct)
  case (1 ident)
  then show ?case by auto
next
  case (2 nxt ch piece val ident)
  obtain edge search where m: "match_loop piece ident = (edge, search)"
    by (cases "match_loop piece ident")
  from 2(3) have ne: "piece \<noteq> []" and fn: "first_char piece \<notin> set (firsts nxt)"
    and wn: "wf_chain nxt" and wc: "wf_chain ch" by simp_all
  have miss: "prefix piece k' \<Longrightarrow> symtab_get nxt k' = 0"
  proof -
    assume "prefix piece k'"
    then have "first_char k' = first_char piece"
      using ne by (auto simp: prefix_def)
    then show ?thesis using get_miss [of nxt k'] wn fn by simp
  qed
  note gs = symtab_get_Entry
  show ?case
  proof (cases "edge = []")
    case True
    with m have pre: "prefix piece ident" and s: "search = drop (length piece) ident"
      using match_loop_prefix match_loop_drop by blast+
    then have id: "ident = piece @ search" by (auto simp: prefix_def)
    show ?thesis
    proof (cases "search = [] \<and> val \<noteq> 0")
      case True
      have "symtab_get ch [] = 0" using get_miss [of ch "[]"] wc by simp
      then show ?thesis using m \<open>edge = []\<close> True id miss
          parent_merge_get [OF ne fn wn wc, of 0 k']
        by (auto simp: entry_unlink_eq gs prefix_def simp del: symtab_get.simps(2))
    next
      case False
      obtain r1 b1 c1 where r: "remove_core ch search = (r1, b1, c1)"
        by (cases "remove_core ch search")
      from 2(1) [OF m [symmetric] True False] wc r
      have ih: "\<And>s'. symtab_get c1 s' = (if s' = search then 0 else symtab_get ch s')"
        by simp
      have wf1: "wf_chain c1" using remove_wf [OF wc, of search] r by simp
      have "symtab_get (parent_merge (Entry nxt c1 piece val)) k' =
            symtab_get (Entry nxt c1 piece val) k'"
        by (rule parent_merge_get [OF ne fn wn wf1])
      moreover have "symtab_get (Entry nxt c1 piece val) k' =
          (if k' = ident then 0 else symtab_get (Entry nxt ch piece val) k')"
        using ih id False by (auto simp: gs prefix_def simp del: symtab_get.simps(2))
      ultimately show ?thesis using m \<open>edge = []\<close> False r
        by (auto simp del: symtab_get.simps(2))
    qed
  next
    case False
    with m have np: "\<not> prefix piece ident" using match_loop_prefix by blast
    obtain r1 b1 n1 where r: "remove_core nxt ident = (r1, b1, n1)"
      by (cases "remove_core nxt ident")
    from 2(2) [OF m [symmetric] False] wn r
    have ih: "\<And>s'. symtab_get n1 s' = (if s' = ident then 0 else symtab_get nxt s')"
      by simp
    show ?thesis using m False r ih np
      by (auto simp: gs simp del: symtab_get.simps(2))
  qed
qed

section \<open>Insertion at a node that is already there\<close>

lemma find_node_put_same:
  "t \<noteq> Null \<Longrightarrow> find_node (snd (put_loop t k v)) k \<noteq> Null"
proof (induction t k v rule: put_loop.induct)
  case (1 ident v)
  then show ?case by simp
next
  case (2 nxt ch piece val ident v)
  obtain edge search where m: "match_loop piece ident = (edge, search)"
    by (cases "match_loop piece ident")
  then obtain p where p: "piece = p @ edge" "ident = p @ search"
    "edge = [] \<or> search = [] \<or> hd edge \<noteq> hd search"
    using match_loop_decomp by blast
  show ?case
  proof (cases "edge = []")
    case True
    show ?thesis
    proof (cases "search = [] \<or> ch = Null")
      case True
      then show ?thesis using m \<open>edge = []\<close>
        by (auto simp: put_defs)
    next
      case False
      then have "find_node (snd (put_loop ch search v)) search \<noteq> Null"
        using 2(1) [OF m [symmetric] \<open>edge = []\<close>] by (simp add: put_defs)
      then show ?thesis using m \<open>edge = []\<close> False
        by (auto simp: put_defs split: prod.splits)
    qed
  next
    case ne: False
    show ?thesis
    proof (cases "edge = piece")
      case True
      with p(1) have "p = []" by simp
      with p(2) have s: "search = ident" by simp
      show ?thesis
      proof (cases "nxt = Null")
        case True
        then show ?thesis using m \<open>edge = piece\<close> ne s
          by (auto simp: put_defs)
      next
        case False
        then have "find_node (snd (put_loop nxt ident v)) ident \<noteq> Null"
          using 2(2) [OF m [symmetric] ne True] by (simp add: put_defs)
        then show ?thesis using m \<open>edge = piece\<close> ne False
          by (auto simp: put_defs split: prod.splits)
      qed
    next
      case False
      then have "p \<noteq> []" using p by auto
      have mp: "match_loop p (p @ search) = ([], search)"
        using match_loop_append [of "[]" search p] by simp
      have me: "match_loop edge search = (edge, search)"
        using match_loop_append [of edge search "[]"] p by simp
      have ep: "edge \<noteq> p @ edge" using \<open>p \<noteq> []\<close> by simp
      show ?thesis using m p(1,2) False ne mp me \<open>p \<noteq> []\<close>
        by (auto simp: put_defs)
    qed
  qed
qed

lemma put_at_found_node:
  "find_node t k \<noteq> Null \<Longrightarrow>
   fst (put_loop t k v) = Value (find_node t k) \<and>
   find_node (snd (put_loop t k v)) k =
     Entry (Next (find_node t k)) (Children (find_node t k)) (Piece (find_node t k)) v"
proof (induction t k v rule: put_loop.induct)
  case (1 ident v)
  then show ?case by simp
next
  case (2 nxt ch piece val ident v)
  obtain edge search where m: "match_loop piece ident = (edge, search)"
    by (cases "match_loop piece ident")
  show ?case
  proof (cases "edge = []")
    case True
    show ?thesis
    proof (cases "search = []")
      case True
      then show ?thesis using m \<open>edge = []\<close> by (simp add: put_defs)
    next
      case False
      with 2(3) m \<open>edge = []\<close> have f: "find_node ch search \<noteq> Null" by simp
      then have "ch \<noteq> Null" by auto
      then show ?thesis using 2(1) [OF m [symmetric] True False _ f] m True False
        by (auto simp: put_defs split: prod.splits)
    qed
  next
    case False
    with 2(3) m have e: "edge = piece" and f: "find_node nxt ident \<noteq> Null"
      by (auto split: if_splits)
    then have "nxt \<noteq> Null" by auto
    then show ?thesis using 2(2) [OF m [symmetric] False e _ f] m False e
      by (auto simp: put_defs split: prod.splits)
  qed
qed

section \<open>The root, and sequences of calls\<close>

lemma wf_rootE:
  assumes "wf_root t"
  obtains ch val where "t = Entry Null ch [] val" "val \<noteq> 0" "wf_chain ch"
  using assms by (cases t) (auto simp: wf_root_def)

lemma wf_chain_distinct: "wf_chain c \<Longrightarrow> distinct (firsts c)"
  by (induction c) auto

lemma wf_chain_compact: "wf_chain c \<Longrightarrow> compact c"
proof (induction c)
  case Null
  then show ?case by simp
next
  case (Entry nxt ch piece val)
  then show ?case
    by (cases ch) (auto simp: is_leaf_def has_exactly_one_child_def has_children_def is_last_def)
qed

lemma wf_chain_siblings: "wf_chain c \<Longrightarrow> siblings_distinct c"
  by (induction c) (auto simp: wf_chain_distinct)

lemma wf_root_compact: "wf_root t \<Longrightarrow> compact t"
  by (erule wf_rootE) (simp add: is_leaf_def wf_chain_compact)

lemma wf_root_siblings: "wf_root t \<Longrightarrow> siblings_distinct t"
  by (erule wf_rootE) (simp add: wf_chain_siblings)

lemma wf_root_create: "wf_root (symtab_create capacity)"
  by (simp add: wf_root_def symtab_create_def)

lemma put_returns_get:
  "c \<noteq> Null \<Longrightarrow> wf_chain c \<Longrightarrow> k \<noteq> [] \<Longrightarrow> fst (put_loop c k v) = symtab_get c k"
proof (induction c k v rule: put_loop.induct)
  case (1 ident v)
  then show ?case by simp
next
  case (2 nxt ch piece val ident v)
  obtain edge search where m: "match_loop piece ident = (edge, search)"
    by (cases "match_loop piece ident")
  from 2(4) have ne: "piece \<noteq> []" by simp
  show ?case
  proof (cases "edge = piece")
    case True
    with m ne 2(5) have s: "search = ident"
      using match_loop_none by blast
    show ?thesis using 2(2) [OF m [symmetric]] m True ne s 2(4,5)
      by (auto simp: put_defs split: prod.splits)
  next
    case nm: False
    show ?thesis
    proof (cases "edge = []")
      case True
      have "symtab_get ch [] = 0" using get_miss [of ch "[]"] 2(4) by simp
      then show ?thesis using 2(1) [OF m [symmetric] True] m True 2(4)
        by (auto simp: put_defs split: prod.splits)
    next
      case False
      from m nm have "first_char ident = first_char piece"
        using match_loop_some by metis
      then have "symtab_get nxt ident = 0" using get_miss [of nxt ident] 2(4) by simp
      then show ?thesis using m nm False by (auto simp: put_defs)
    qed
  qed
qed

lemma put_root:
  assumes "wf_root t" "k \<noteq> []" "v \<noteq> 0"
  shows "wf_root (snd (put_loop t k v))"
    and "symtab_get (snd (put_loop t k v)) k' = (if k' = k then v else symtab_get t k')"
    and "fst (put_loop t k v) = symtab_get t k"
proof -
  from assms(1) obtain ch val where t: "t = Entry Null ch [] val" "val \<noteq> 0" "wf_chain ch"
    by (rule wf_rootE)
  have m: "match_loop [] k = ([], k)" by simp
  show "wf_root (snd (put_loop t k v))"
    using t assms(2,3) put_wf [of ch k v]
    by (auto simp: wf_root_def put_defs split: prod.splits)
  show "symtab_get (snd (put_loop t k v)) k' = (if k' = k then v else symtab_get t k')"
    using t assms(2,3) get_put [of ch k v]
    by (cases "ch = Null")
      (auto simp: put_defs symtab_get_Entry get_leaf simp del: symtab_get.simps(2)
        split: prod.splits)
  show "fst (put_loop t k v) = symtab_get t k"
    using t assms(2) put_returns_get [of ch k v]
    by (cases "ch = Null") (auto simp: put_defs split: prod.splits)
qed

lemma remove_root:
  assumes "wf_root t" "k \<noteq> []"
  shows "\<exists>t'. symtab_remove t k = Inr (symtab_get t k, t') \<and> wf_root t' \<and>
           Value t' = Value t \<and>
           (\<forall>k'. symtab_get t' k' = (if k' = k then 0 else symtab_get t k'))"
proof -
  from assms(1) obtain ch val where t: "t = Entry Null ch [] val" "val \<noteq> 0" "wf_chain ch"
    by (rule wf_rootE)
  obtain r b c1 where r: "remove_core ch k = (r, b, c1)"
    by (cases "remove_core ch k")
  have pm: "parent_merge (Entry Null c1 [] val) = Entry Null c1 [] val"
    using t(2) by (simp add: parent_merge_cases)
  have rm: "symtab_remove t k = Inr (r, Entry Null c1 [] val)"
    using t assms(2) r pm by (simp add: symtab_remove_def remove_loop_core)
  have rg: "r = symtab_get ch k" using remove_core_get [of ch k] r by simp
  have wf1: "wf_chain c1" using remove_wf [OF t(3), of k] r by simp
  have g: "\<And>s. symtab_get c1 s = (if s = k then 0 else symtab_get ch s)"
    using get_remove [OF t(3), of k] r by simp
  show ?thesis using rm rg wf1 g t assms(2)
    by (auto simp: wf_root_def is_leaf_def get_value_def)
qed

lemma remove_root_empty:
  assumes "wf_root t"
  shows "symtab_remove t [] = Inl NullDereference"
proof -
  from assms obtain ch val where t: "t = Entry Null ch [] val" "val \<noteq> 0" "wf_chain ch"
    by (rule wf_rootE)
  then show ?thesis by (simp add: symtab_remove_def is_leaf_def)
qed

lemma apply_op_wf:
  assumes "wf_root t" "valid_put x" "apply_op x t = Inr t'"
  shows "wf_root t' \<and>
           (\<forall>k. k \<notin> set (put_keys [x]) \<longrightarrow> symtab_get t k = 0 \<longrightarrow> symtab_get t' k = 0)"
proof (cases x)
  case (Put k v)
  with assms(2) have kv: "k \<noteq> []" "v \<noteq> 0" by simp_all
  show ?thesis using Put kv assms(3) put_root(1,2) [OF assms(1) kv]
    by (auto simp: symtab_put_def split: prod.splits)
next
  case (Remove k)
  show ?thesis
  proof (cases "k = []")
    case True
    with Remove assms(3) remove_root_empty [OF assms(1)] show ?thesis by simp
  next
    case False
    from remove_root [OF assms(1) False] Remove assms(3) show ?thesis by auto
  qed
qed (use assms in auto)

lemma apply_op_total:
  assumes "wf_root t" "valid_op x"
  shows "\<exists>t'. apply_op x t = Inr t'"
proof (cases x)
  case (Put k v)
  with assms(2) show ?thesis by (auto simp: symtab_put_def split: prod.splits)
next
  case (Remove k)
  with assms(2) have "k \<noteq> []" by simp
  from remove_root [OF assms(1) this] Remove show ?thesis by auto
qed auto

lemma valid_op_put: "valid_op x \<Longrightarrow> valid_put x"
  by (cases x) auto

lemma run_wf:
  "list_all valid_put ops \<Longrightarrow> wf_root t \<Longrightarrow> run ops t = Inr t' \<Longrightarrow>
   wf_root t' \<and>
     (\<forall>k. k \<notin> set (put_keys ops) \<longrightarrow> symtab_get t k = 0 \<longrightarrow> symtab_get t' k = 0)"
proof (induction ops arbitrary: t)
  case Nil
  then show ?case by simp
next
  case (Cons x xs)
  from Cons.prems have vx: "valid_put x" and vxs: "list_all valid_put xs" by simp_all
  from Cons.prems(3) obtain t1 where a: "apply_op x t = Inr t1" and r: "run xs t1 = Inr t'"
    by (auto split: sum.splits)
  from apply_op_wf [OF Cons.prems(2) vx a] have
    t1: "wf_root t1"
      "\<forall>k. k \<notin> set (put_keys [x]) \<longrightarrow> symtab_get t k = 0 \<longrightarrow> symtab_get t1 k = 0"
    by blast+
  from Cons.IH [OF vxs t1(1) r] have
    t2: "wf_root t'"
      "\<forall>k. k \<notin> set (put_keys xs) \<longrightarrow> symtab_get t1 k = 0 \<longrightarrow> symtab_get t' k = 0"
    by blast+
  have "set (put_keys (x # xs)) = set (put_keys [x]) \<union> set (put_keys xs)"
    by (cases x) auto
  then show ?case using t1 t2 by auto
qed

lemma run_total:
  "list_all valid_op ops \<Longrightarrow> wf_root t \<Longrightarrow> \<exists>t'. run ops t = Inr t'"
proof (induction ops arbitrary: t)
  case Nil
  then show ?case by simp
next
  case (Cons x xs)
  from Cons.prems have vx: "valid_op x" and vxs: "list_all valid_op xs" by simp_all
  from apply_op_total [OF Cons.prems(2) vx] obtain t1 where a: "apply_op x t = Inr t1"
    by blast
  have "wf_root t1" using apply_op_wf [OF Cons.prems(2) valid_op_put [OF vx] a] by simp
  from Cons.IH [OF vxs this] a show ?case by auto
qed

lemma reachable_wf:
  "list_all valid_put ops \<Longrightarrow> run ops (symtab_create capacity) = Inr t \<Longrightarrow> wf_root t"
  using run_wf [OF _ wf_root_create] by blast

lemmas run_defs = symtab_create_def symtab_put_def symtab_remove_def put_defs
  entry_unlink_def parent_merge_def entry_merge_def has_exactly_one_child_def

section \<open>Lookup of keys that were never inserted\<close>

text \<open>
  Against claim C1 as it is stated: the root that \<open>symtab_create\<close> makes holds the value 42,
  so it counts as a leaf, and a lookup of the empty key in the new table returns 42.
\<close>

theorem get_empty_key_fresh_counterexample:
  "symtab_get (symtab_create 0) [] = 42 \<and> symtab_get (symtab_create 0) [] \<noteq> 0 \<and>
   is_leaf (symtab_create 0)"
  by (simp add: symtab_create_def is_leaf_def get_value_def)

text \<open>
  Claim C1, amended. In a table made by \<open>symtab_create\<close> and a sequence of calls with valid
  puts, the lookup of a non-empty key that no put of the sequence has inserted returns 0.
  The root made by \<open>symtab_create\<close> stores the value 42, which the lookup of the empty key
  in the new table returns.
\<close>

theorem get_never_inserted:
  assumes "list_all valid_put ops" and "run ops (symtab_create capacity) = Inr t"
    and "k \<noteq> []" and "k \<notin> set (put_keys ops)"
  shows "symtab_get t k = 0 \<and> symtab_get (symtab_create capacity) [] = 42 \<and>
         Value (symtab_create capacity) = 42"
proof -
  have "symtab_get (symtab_create capacity) k = 0"
    using assms(3) by (cases k) (simp_all add: symtab_create_def)
  then have "symtab_get t k = 0"
    using run_wf [OF assms(1) wf_root_create assms(2)] assms(4) by auto
  then show ?thesis by (simp add: symtab_create_def is_leaf_def get_value_def)
qed

theorem get_never_inserted_witness:
  "list_all valid_put [Put ''cat'' 1, Put ''car'' 2, Remove ''cat''] \<and>
   run [Put ''cat'' 1, Put ''car'' 2, Remove ''cat''] (symtab_create 0)
     = Inr (Entry Null (Entry Null Null ''car'' 2) [] 42) \<and>
   ''ca'' \<noteq> [] \<and>
   ''ca'' \<notin> set (put_keys [Put ''cat'' 1, Put ''car'' 2, Remove ''cat'']) \<and>
   symtab_get (Entry Null (Entry Null Null ''car'' 2) [] 42) ''ca'' = 0 \<and>
   symtab_get (symtab_create 0) [] = 42 \<and> Value (symtab_create 0) = 42"
proof -
  have v: "list_all valid_put [Put ''cat'' 1, Put ''car'' 2, Remove ''cat'']" by simp
  have r: "run [Put ''cat'' 1, Put ''car'' 2, Remove ''cat''] (symtab_create 0)
     = Inr (Entry Null (Entry Null Null ''car'' 2) [] 42)"
    by (simp add: run_defs)
  have k: "''ca'' \<noteq> []" by simp
  have n: "''ca'' \<notin> set (put_keys [Put ''cat'' 1, Put ''car'' 2, Remove ''cat''])" by simp
  from get_never_inserted [OF v r k n] v r k n show ?thesis by simp
qed

section \<open>Insertion, then lookup\<close>

text \<open>
  Claim C2. In every table reached from a new one, for every non-empty key and every value
  other than 0, put succeeds and a lookup of the key in the table it leaves returns the
  value.
\<close>

theorem put_then_get:
  assumes "list_all valid_put ops" and "run ops (symtab_create capacity) = Inr t"
    and "k \<noteq> []" and "v \<noteq> 0"
  shows "\<exists>r t'. symtab_put t k v = Inr (r, t') \<and> symtab_get t' k = v"
proof -
  have wf: "wf_root t" using assms(1,2) by (rule reachable_wf)
  obtain r t' where p: "put_loop t k v = (r, t')" by (cases "put_loop t k v")
  have "symtab_get t' k = v" using put_root(2) [OF wf assms(3,4), of k] p by simp
  then show ?thesis using p assms(4) by (simp add: symtab_put_def)
qed

theorem put_then_get_witness:
  "list_all valid_put [Put ''cat'' 1, Put ''car'' 2] \<and>
   run [Put ''cat'' 1, Put ''car'' 2] (symtab_create 0)
     = Inr (Entry Null (Entry Null (Entry (Entry Null Null ''r'' 2) Null ''t'' 1) ''ca'' 0) [] 42) \<and>
   ''card'' \<noteq> [] \<and> (3 :: 32 word) \<noteq> 0 \<and>
   (\<exists>r t'. symtab_put
       (Entry Null (Entry Null (Entry (Entry Null Null ''r'' 2) Null ''t'' 1) ''ca'' 0) [] 42)
       ''card'' 3 = Inr (r, t') \<and> symtab_get t' ''card'' = 3)"
proof -
  have v: "list_all valid_put [Put ''cat'' 1, Put ''car'' 2]" by simp
  have r: "run [Put ''cat'' 1, Put ''car'' 2] (symtab_create 0)
     = Inr (Entry Null (Entry Null (Entry (Entry Null Null ''r'' 2) Null ''t'' 1) ''ca'' 0) [] 42)"
    by (simp add: run_defs)
  have k: "''card'' \<noteq> []" by simp
  have n: "(3 :: 32 word) \<noteq> 0" by simp
  from put_then_get [OF v r k n] v r show ?thesis by simp
qed

section \<open>Completion at a mismatch inside a label\<close>

text \<open>
  Claim C3 at a concrete input. The table holds the one key \<open>hello\<close>; the buffer holds
  \<open>help\<close>, which differs from the label at its fourth character. \<open>symtab_complete\<close> then
  writes the rest of the label over the rest of the buffer and returns 1.
\<close>

theorem complete_overwrites_at_mismatch:
  "symtab_put (symtab_create 0) ''hello'' 1
     = Inr (0, Entry Null (Entry Null Null ''hello'' 1) [] 42) \<and>
   symtab_complete (Entry Null (Entry Null Null ''hello'' 1) [] 42) ''help''
     = (1, ''hello'')"
  by (simp add: symtab_put_def symtab_create_def symtab_complete_def has_children_def
      new_single_leaf_def new_leaf_def)

section \<open>No node without a value has exactly one child\<close>

text \<open>
  Claim C4. Every sequence of valid calls on a new table (puts with a non-empty key and a
  value other than 0, removals of non-empty keys) runs without error, and in the table it
  leaves no node whose value is absent has exactly one child. The root is not such a node:
  it holds the value that \<open>symtab_create\<close> gave it.
\<close>

theorem compact_after_ops:
  assumes "list_all valid_op ops"
  shows "\<exists>t. run ops (symtab_create capacity) = Inr t \<and> compact t"
proof -
  from run_total [OF assms wf_root_create] obtain t where
    r: "run ops (symtab_create capacity) = Inr t" by blast
  have "list_all valid_put ops" using assms by (induction ops) (auto simp: valid_op_put)
  then have "wf_root t" using r by (rule reachable_wf)
  then show ?thesis using r wf_root_compact by blast
qed

theorem compact_after_ops_witness:
  "list_all valid_op [Put ''cat'' 1, Put ''car'' 2, Put ''card'' 3, Remove ''car''] \<and>
   run [Put ''cat'' 1, Put ''car'' 2, Put ''card'' 3, Remove ''car''] (symtab_create 0)
     = Inr (Entry Null (Entry Null (Entry (Entry Null Null ''rd'' 3) Null ''t'' 1) ''ca'' 0) [] 42) \<and>
   compact (Entry Null (Entry Null (Entry (Entry Null Null ''rd'' 3) Null ''t'' 1) ''ca'' 0) [] 42)"
proof -
  have v: "list_all valid_op [Put ''cat'' 1, Put ''car'' 2, Put ''card'' 3, Remove ''car'']"
    by simp
  have r: "run [Put ''cat'' 1, Put ''car'' 2, Put ''card'' 3, Remove ''car''] (symtab_create 0)
     = Inr (Entry Null (Entry Null (Entry (Entry Null Null ''rd'' 3) Null ''t'' 1) ''ca'' 0) [] 42)"
    by (simp add: run_defs)
  from compact_after_ops [OF v, of 0] v r show ?thesis by simp
qed

section \<open>Insertion, then removal\<close>

text \<open>
  Against claim C5 as it is stated, for all keys: put accepts the empty key and overwrites
  the value of the root; the removal of the empty key then finds the root, whose parent
  pointer is \<open>NULL\<close>, and \<open>_entry_remove\<close> dereferences it.
\<close>

theorem put_remove_empty_key_counterexample:
  "symtab_put (symtab_create 0) [] 5 = Inr (42, Entry Null Null [] 5) \<and>
   symtab_remove (Entry Null Null [] 5) [] = Inl NullDereference"
  by (simp add: run_defs)

text \<open>
  Claim C5, amended to non-empty keys. In every table reached from a new one, put of a
  non-empty key with a value other than 0, followed by the removal of the key, returns the
  value from the removal, and a lookup of the key afterwards returns 0.
\<close>

theorem put_remove_get:
  assumes "list_all valid_put ops" and "run ops (symtab_create capacity) = Inr t"
    and "k \<noteq> []" and "v \<noteq> 0"
  shows "\<exists>r t1 t2. symtab_put t k v = Inr (r, t1) \<and> symtab_remove t1 k = Inr (v, t2) \<and>
           symtab_get t2 k = 0"
proof -
  have wf: "wf_root t" using assms(1,2) by (rule reachable_wf)
  obtain r t1 where p: "put_loop t k v = (r, t1)" by (cases "put_loop t k v")
  have wf1: "wf_root t1" and g1: "symtab_get t1 k = v"
    using put_root(1) [OF wf assms(3,4)] put_root(2) [OF wf assms(3,4), of k] p by simp_all
  from remove_root [OF wf1 assms(3)] g1 obtain t2 where
    "symtab_remove t1 k = Inr (v, t2)" "symtab_get t2 k = 0" by auto
  then show ?thesis using p assms(4) by (simp add: symtab_put_def)
qed

theorem put_remove_get_witness:
  "list_all valid_put [Put ''cat'' 1] \<and>
   run [Put ''cat'' 1] (symtab_create 0) = Inr (Entry Null (Entry Null Null ''cat'' 1) [] 42) \<and>
   ''car'' \<noteq> [] \<and> (2 :: 32 word) \<noteq> 0 \<and>
   (\<exists>r t1 t2. symtab_put (Entry Null (Entry Null Null ''cat'' 1) [] 42) ''car'' 2 = Inr (r, t1) \<and>
      symtab_remove t1 ''car'' = Inr (2, t2) \<and> symtab_get t2 ''car'' = 0)"
proof -
  have v: "list_all valid_put [Put ''cat'' 1]" by simp
  have r: "run [Put ''cat'' 1] (symtab_create 0) = Inr (Entry Null (Entry Null Null ''cat'' 1) [] 42)"
    by (simp add: run_defs)
  have k: "''car'' \<noteq> []" by simp
  have n: "(2 :: 32 word) \<noteq> 0" by simp
  from put_remove_get [OF v r k n] v r show ?thesis by simp
qed

section \<open>Sibling labels start with distinct characters\<close>

text \<open>
  Claim C6. After every sequence of calls on a new table (put with a non-empty key and a
  value other than 0, remove, get, complete), the labels of the siblings in every chain of
  the table have pairwise distinct first characters. A removal of the empty key ends the run
  with a dereference of \<open>NULL\<close> and leaves no table to speak of.
\<close>

theorem siblings_distinct_after_ops:
  assumes "list_all valid_put ops" and "run ops (symtab_create capacity) = Inr t"
  shows "siblings_distinct t"
  using reachable_wf [OF assms] by (rule wf_root_siblings)

theorem siblings_distinct_after_ops_witness:
  "list_all valid_put
     [Put ''cat'' 1, Get ''cat'', Put ''car'' 2, Complete ''c'', Put ''dog'' 3, Remove ''cat''] \<and>
   run [Put ''cat'' 1, Get ''cat'', Put ''car'' 2, Complete ''c'', Put ''dog'' 3, Remove ''cat'']
     (symtab_create 0)
     = Inr (Entry Null (Entry (Entry Null Null ''dog'' 3) Null ''car'' 2) [] 42) \<and>
   siblings_distinct (Entry Null (Entry (Entry Null Null ''dog'' 3) Null ''car'' 2) [] 42)"
proof -
  have v: "list_all valid_put
     [Put ''cat'' 1, Get ''cat'', Put ''car'' 2, Complete ''c'', Put ''dog'' 3, Remove ''cat'']"
    by simp
  have r: "run [Put ''cat'' 1, Get ''cat'', Put ''car'' 2, Complete ''c'', Put ''dog'' 3, Remove ''cat'']
      (symtab_create 0)
     = Inr (Entry Null (Entry (Entry Null Null ''dog'' 3) Null ''car'' 2) [] 42)"
    by (simp add: run_defs)
  from siblings_distinct_after_ops [OF v r] v r show ?thesis by simp
qed

section \<open>Overwriting a value\<close>

text \<open>
  Claim C7. In every table reached from a new one, for a non-empty key and two values other
  than 0: the second of two puts of the key returns the value of the first, a lookup then
  returns the second value, and the node of the key is the same before and after the second
  put but for its value: its children, its label and its next sibling are untouched.
\<close>

theorem put_overwrite:
  assumes "list_all valid_put ops" and "run ops (symtab_create capacity) = Inr t"
    and "k \<noteq> []" and "v1 \<noteq> 0" and "v2 \<noteq> 0"
  shows "\<exists>r t1 t2 n1.
           symtab_put t k v1 = Inr (r, t1) \<and> symtab_put t1 k v2 = Inr (v1, t2) \<and>
           symtab_get t2 k = v2 \<and>
           find_node t1 k = n1 \<and> n1 \<noteq> Null \<and> Value n1 = v1 \<and>
           find_node t2 k = Entry (Next n1) (Children n1) (Piece n1) v2"
proof -
  have wf: "wf_root t" using assms(1,2) by (rule reachable_wf)
  then have tn: "t \<noteq> Null" by (simp add: wf_root_def)
  obtain r t1 where p1: "put_loop t k v1 = (r, t1)" by (cases "put_loop t k v1")
  obtain r2 t2 where p2: "put_loop t1 k v2 = (r2, t2)" by (cases "put_loop t1 k v2")
  have wf1: "wf_root t1" and g1: "symtab_get t1 k = v1"
    using put_root(1) [OF wf assms(3,4)] put_root(2) [OF wf assms(3,4), of k] p1 by simp_all
  have g2: "symtab_get t2 k = v2" and r2: "r2 = v1"
    using put_root(2) [OF wf1 assms(3,5), of k] put_root(3) [OF wf1 assms(3,5)] p2 g1
    by simp_all
  have f1: "find_node t1 k \<noteq> Null"
    using find_node_put_same [OF tn, of k v1] p1 by simp
  from put_at_found_node [OF f1, of v2] p2 r2
  have v: "Value (find_node t1 k) = v1"
    and f2: "find_node t2 k =
      Entry (Next (find_node t1 k)) (Children (find_node t1 k)) (Piece (find_node t1 k)) v2"
    by simp_all
  show ?thesis using p1 p2 r2 g2 f1 v f2 assms(4,5) by (simp add: symtab_put_def)
qed

theorem put_overwrite_witness:
  "list_all valid_put [Put ''cat'' 1, Put ''car'' 2] \<and>
   run [Put ''cat'' 1, Put ''car'' 2] (symtab_create 0)
     = Inr (Entry Null (Entry Null (Entry (Entry Null Null ''r'' 2) Null ''t'' 1) ''ca'' 0) [] 42) \<and>
   ''ca'' \<noteq> [] \<and> (7 :: 32 word) \<noteq> 0 \<and> (9 :: 32 word) \<noteq> 0 \<and>
   (\<exists>r t1 t2 n1.
      symtab_put (Entry Null (Entry Null (Entry (Entry Null Null ''r'' 2) Null ''t'' 1) ''ca'' 0) [] 42)
        ''ca'' 7 = Inr (r, t1) \<and>
      symtab_put t1 ''ca'' 9 = Inr (7, t2) \<and> symtab_get t2 ''ca'' = 9 \<and>
      find_node t1 ''ca'' = n1 \<and> n1 \<noteq> Null \<and> Value n1 = 7 \<and>
      find_node t2 ''ca'' = Entry (Next n1) (Children n1) (Piece n1) 9)"
proof -
  have v: "list_all valid_put [Put ''cat'' 1, Put ''car'' 2]" by simp
  have r: "run [Put ''cat'' 1, Put ''car'' 2] (symtab_create 0)
     = Inr (Entry Null (Entry Null (Entry (Entry Null Null ''r'' 2) Null ''t'' 1) ''ca'' 0) [] 42)"
    by (simp add: run_defs)
  have k: "''ca'' \<noteq> []" by simp
  have a: "(7 :: 32 word) \<noteq> 0" and b: "(9 :: 32 word) \<noteq> 0" by simp_all
  from put_overwrite [OF v r k a b] v r show ?thesis by simp
qed

section \<open>Removal of a key that is not stored\<close>

text \<open>
  Claim C8. In every table reached from a new one, the removal of a non-empty key that is
  not among the stored keys returns 0 and returns the table as it was.
\<close>

theorem remove_absent_unchanged:
  assumes "list_all valid_put ops" and "run ops (symtab_create capacity) = Inr t"
    and "k \<noteq> []" and "k \<notin> set (keys t)"
  shows "symtab_remove t k = Inr (0, t)"
proof -
  have "symtab_get t k = 0" using get_in_keys [of t k] assms(4) by blast
  then show ?thesis by (rule symtab_remove_absent)
qed

theorem remove_absent_unchanged_witness:
  "list_all valid_put [Put ''cat'' 1, Put ''car'' 2] \<and>
   run [Put ''cat'' 1, Put ''car'' 2] (symtab_create 0)
     = Inr (Entry Null (Entry Null (Entry (Entry Null Null ''r'' 2) Null ''t'' 1) ''ca'' 0) [] 42) \<and>
   ''ca'' \<noteq> [] \<and>
   ''ca'' \<notin> set (keys (Entry Null (Entry Null (Entry (Entry Null Null ''r'' 2) Null ''t'' 1) ''ca'' 0) [] 42)) \<and>
   symtab_remove (Entry Null (Entry Null (Entry (Entry Null Null ''r'' 2) Null ''t'' 1) ''ca'' 0) [] 42) ''ca''
     = Inr (0, (Entry Null (Entry Null (Entry (Entry Null Null ''r'' 2) Null ''t'' 1) ''ca'' 0) [] 42))"
proof -
  have v: "list_all valid_put [Put ''cat'' 1, Put ''car'' 2]" by simp
  have r: "run [Put ''cat'' 1, Put ''car'' 2] (symtab_create 0)
     = Inr (Entry Null (Entry Null (Entry (Entry Null Null ''r'' 2) Null ''t'' 1) ''ca'' 0) [] 42)"
    by (simp add: run_defs)
  have k: "''ca'' \<noteq> []" by simp
  have n: "''ca'' \<notin> set (keys (Entry Null (Entry Null (Entry (Entry Null Null ''r'' 2) Null ''t'' 1) ''ca'' 0) [] 42))"
    by simp
  from remove_absent_unchanged [OF v r k n] v r n show ?thesis by simp
qed

section \<open>The assertion of \<open>symtab_put\<close>\<close>

text \<open>
  Claim C9. A call of put with the value 0 fails the assertion, and no table is returned: the
  failure comes before any change. With any other value the assertion holds and put returns
  a previous value and a table.
\<close>

theorem put_assertion:
  "symtab_put tab ident 0 = Inl AssertionFailed \<and>
   (v \<noteq> 0 \<longrightarrow> (\<exists>r tab'. symtab_put tab ident v = Inr (r, tab')))"
  by (cases "put_loop tab ident v") (simp add: symtab_put_def)

theorem put_assertion_witness:
  "symtab_put (symtab_create 0) ''a'' 0 = Inl AssertionFailed \<and>
   (7 :: 32 word) \<noteq> 0 \<and>
   (\<exists>r tab'. symtab_put (symtab_create 0) ''a'' 7 = Inr (r, tab'))"
  using put_assertion [of "symtab_create 0" "''a''" 7] by simp

section \<open>Removal never reaches \<open>_entry_remove\<close> with a \<open>NULL\<close> parent\<close>

text \<open>
  Claim C10. In every table reached from a new one and for every non-empty key, the loop of
  \<open>symtab_remove\<close>, started with \<open>parent = NULL\<close>, does not end in the dereference of a
  \<open>NULL\<close> parent: \<open>symtab_remove\<close> returns a value and a table. The node it removes or
  strips of its value is not the root, which keeps its label, its value and its (absent)
  sibling.
\<close>

theorem remove_total:
  assumes "list_all valid_put ops" and "run ops (symtab_create capacity) = Inr t"
    and "k \<noteq> []"
  shows "remove_loop t None k \<noteq> Inl NullDereference \<and>
         (\<exists>r t'. symtab_remove t k = Inr (r, t') \<and> t' \<noteq> Null \<and>
            Piece t' = Piece t \<and> Value t' = Value t \<and> Next t' = Next t)"
proof -
  have wf: "wf_root t" using assms(1,2) by (rule reachable_wf)
  from remove_root [OF wf assms(3)] obtain t' where
    t': "symtab_remove t k = Inr (symtab_get t k, t')" "wf_root t'" "Value t' = Value t"
    by blast
  then have "remove_loop t None k \<noteq> Inl NullDereference"
    by (auto simp: symtab_remove_def)
  then show ?thesis using t' wf by (auto simp: wf_root_def)
qed

theorem remove_total_witness:
  "list_all valid_put [Put ''cat'' 1, Put ''car'' 2] \<and>
   run [Put ''cat'' 1, Put ''car'' 2] (symtab_create 0)
     = Inr (Entry Null (Entry Null (Entry (Entry Null Null ''r'' 2) Null ''t'' 1) ''ca'' 0) [] 42) \<and>
   ''car'' \<noteq> [] \<and>
   remove_loop (Entry Null (Entry Null (Entry (Entry Null Null ''r'' 2) Null ''t'' 1) ''ca'' 0) [] 42) None ''car''
     \<noteq> Inl NullDereference \<and>
   (\<exists>r t'. symtab_remove (Entry Null (Entry Null (Entry (Entry Null Null ''r'' 2) Null ''t'' 1) ''ca'' 0) [] 42) ''car''
       = Inr (r, t') \<and> t' \<noteq> Null \<and> Piece t' = [] \<and> Value t' = 42 \<and> Next t' = Null)"
proof -
  have v: "list_all valid_put [Put ''cat'' 1, Put ''car'' 2]" by simp
  have r: "run [Put ''cat'' 1, Put ''car'' 2] (symtab_create 0)
     = Inr (Entry Null (Entry Null (Entry (Entry Null Null ''r'' 2) Null ''t'' 1) ''ca'' 0) [] 42)"
    by (simp add: run_defs)
  have k: "''car'' \<noteq> []" by simp
  from remove_total [OF v r k] v r show ?thesis by simp
qed

end
